theory Spec2Isabelle
  imports Main
begin

section \<open>The process stream supervisor of festival-pipe.py\<close>

text \<open>
  The program is one coroutine:
  \<^verbatim>\<open>
  async def run():
      proc = await asyncio.create_subprocess_shell(
          'python nerd-dictation begin --continuous --numbers-as-digits',
          stdout=asyncio.subprocess.PIPE)
      while True:
          output_str = await proc.stdout.readline()
          print(output_str)
  \<close>
  It spawns a shell on a fixed command line, then reads the child's standard output
  line by line for ever and prints each value read. Nothing is caught, nothing is
  tested, and the loop has neither \<open>break\<close> nor \<open>return\<close>.

  The coroutine is embedded as a function of the world it runs in: the operating
  system that starts the shell, and the events the child's pipe feeds into the
  \<open>StreamReader\<close> behind \<open>proc.stdout\<close>. What the coroutine does is recorded as a
  trace of actions, so that a run that never ends can still be observed after
  any number of turns of its loop.
\<close>

subsection \<open>Bytes, exceptions, the stream reader\<close>

type_synonym bytes = "char list"

definition newline :: char where
  "newline = CHR 0x0A"

text \<open>
  The exceptions that can reach \<open>run\<close>: those of the operating system (the spawn
  that fails, the pipe that breaks, the standard output that is gone), where
  \<open>OSError n\<close> carries the errno, and the \<open>ValueError\<close> of \<open>readline\<close> for a line that
  is too long.
\<close>

datatype exn = OSError nat | ValueError

text \<open>
  \<open>proc.stdout\<close> is an \<open>asyncio.StreamReader\<close>: the bytes received and not yet read
  (\<open>_buffer\<close>), whether the pipe has been closed (\<open>_eof\<close>), and the exception the
  transport has reported (\<open>_exception\<close>).
\<close>

record reader =
  buffer :: bytes
  eof :: bool
  exception :: "exn option"

text \<open>
  The reader is made with the default limit of \<open>asyncio.streams\<close>, \<open>2 ** 16\<close> bytes.
\<close>

definition limit :: nat where
  "limit = 2 ^ 16"

definition new_reader :: reader where
  "new_reader = \<lparr>buffer = [], eof = False, exception = None\<rparr>"

text \<open>
  What the pipe does to the reader, in the order it happens: the child writes
  (\<open>feed_data\<close>), the write end of the pipe is closed (\<open>feed_eof\<close>), or a read of the
  pipe fails (\<open>set_exception\<close>). The end of the pipe carries no reason: \<open>feed_eof\<close> is
  what the reader gets when the child closes its output, when it exits, and
  when it is killed in the middle of a line. A child is the list of the events
  still to come; when the list is used up and the pipe was never closed, the
  child is alive and silent for ever.
\<close>

datatype event = Feed_data bytes | Feed_eof | Set_exception exn

fun feed :: "event \<Rightarrow> reader \<Rightarrow> reader" where
  "feed (Feed_data d) r = r\<lparr>buffer := buffer r @ d\<rparr>"
| "feed Feed_eof r = r\<lparr>eof := True\<rparr>"
| "feed (Set_exception e) r = r\<lparr>exception := Some e\<rparr>"

text \<open>
  \<open>split_line b\<close> cuts \<open>b\<close> after its first newline: the line with its terminator,
  and the rest. \<open>None\<close> when \<open>b\<close> holds no newline.
\<close>

fun split_line :: "bytes \<Rightarrow> (bytes \<times> bytes) option" where
  "split_line [] = None"
| "split_line (c # cs) =
     (if c = newline then Some ([c], cs)
      else (case split_line cs of
              None \<Rightarrow> None
            | Some (l, rest) \<Rightarrow> Some (c # l, rest)))"

text \<open>
  One call of \<open>await proc.stdout.readline()\<close> has three ways to go: it returns bytes
  (and leaves the reader and the child in a new state), it raises, or it stays
  suspended for ever because nothing more arrives.
\<close>

datatype read_result =
  Got bytes reader "event list"
| Raises exn
| Waits

text \<open>
  The waiting loop of \<open>StreamReader.readuntil\<close>, as \<open>readline\<close> uses it. A complete
  line in the buffer is returned with its newline, unless the newline stands
  beyond the limit (\<open>isep > limit\<close>, where \<open>isep\<close> is the length of the line without
  its newline). Failing that, a buffer longer than the limit is refused; at end
  of stream the whole buffer is returned, be it a last line without newline or
  the empty bytes (\<open>readline\<close> catches \<open>IncompleteReadError\<close> and returns its partial
  data); and otherwise the call waits for the next event of the pipe and looks
  again. A read failure that arrives during the wait is raised in the waiting
  call. \<open>readline\<close> turns the \<open>LimitOverrunError\<close> of both refusals into a
  \<open>ValueError\<close>.

  An event is taken from the child's list only when a call has to wait for it;
  whatever arrived before the call is in the fields of the reader already, so a
  state of the reader together with the events still to come stands for any
  moment of a run.
\<close>

fun wait_for_line :: "reader \<Rightarrow> event list \<Rightarrow> read_result" where
  "wait_for_line r [] =
     (case split_line (buffer r) of
        Some (l, rest) \<Rightarrow>
          if Suc limit < length l then Raises ValueError
          else Got l (r\<lparr>buffer := rest\<rparr>) []
      | None \<Rightarrow>
          if limit < length (buffer r) then Raises ValueError
          else if eof r then Got (buffer r) (r\<lparr>buffer := []\<rparr>) []
          else Waits)"
| "wait_for_line r (ev # evs) =
     (case split_line (buffer r) of
        Some (l, rest) \<Rightarrow>
          if Suc limit < length l then Raises ValueError
          else Got l (r\<lparr>buffer := rest\<rparr>) (ev # evs)
      | None \<Rightarrow>
          if limit < length (buffer r) then Raises ValueError
          else if eof r then Got (buffer r) (r\<lparr>buffer := []\<rparr>) (ev # evs)
          else (case ev of
                  Set_exception e \<Rightarrow> Raises e
                | _ \<Rightarrow> wait_for_line (feed ev r) evs))"

text \<open>
  How often the coroutine is really suspended inside one such call: once for
  every event of the pipe that the call has to wait for and that wakes it up (a
  write of no bytes wakes nobody), and once, for ever, when it has to wait and
  nothing comes any more. A call that finds its line, the end of the stream or
  too long a buffer does not suspend at all.
\<close>

fun waits_in :: "reader \<Rightarrow> event list \<Rightarrow> nat" where
  "waits_in r [] =
     (case split_line (buffer r) of
        Some (l, rest) \<Rightarrow> 0
      | None \<Rightarrow> if limit < length (buffer r) then 0 else if eof r then 0 else 1)"
| "waits_in r (ev # evs) =
     (case split_line (buffer r) of
        Some (l, rest) \<Rightarrow> 0
      | None \<Rightarrow>
          if limit < length (buffer r) then 0
          else if eof r then 0
          else (case ev of
                  Set_exception e \<Rightarrow> 1
                | Feed_data d \<Rightarrow>
                    if d = [] then waits_in (feed ev r) evs
                    else Suc (waits_in (feed ev r) evs)
                | Feed_eof \<Rightarrow> Suc (waits_in (feed ev r) evs)))"

text \<open>
  \<open>readline\<close> raises at once the exception the transport has already stored, and
  waits for a line otherwise.
\<close>

definition readline :: "reader \<Rightarrow> event list \<Rightarrow> read_result" where
  "readline r evs =
     (case exception r of
        Some e \<Rightarrow> Raises e
      | None \<Rightarrow> wait_for_line r evs)"

definition suspensions :: "reader \<Rightarrow> event list \<Rightarrow> nat" where
  "suspensions r evs =
     (case exception r of
        Some e \<Rightarrow> 0
      | None \<Rightarrow> waits_in r evs)"

subsection \<open>What print writes\<close>





text \<open>
  The standard output that \<open>print\<close> writes to either takes whatever it is given
  (\<open>None\<close>), or takes \<open>k\<close> more calls and fails in the next one with an errno
  (\<open>Some (k, errno)\<close>), as a pipe does whose reader has gone. \<open>print\<close> raises the
  \<open>OSError\<close> of the write that fails.
\<close>

type_synonym stdout = "(nat \<times> nat) option"

fun print :: "stdout \<Rightarrow> bytes \<Rightarrow> exn + stdout" where
  "print None b = Inr None"
| "print (Some (0, errno)) b = Inl (OSError errno)"
| "print (Some (Suc k, errno)) b = Inr (Some (k, errno))"

subsection \<open>The coroutine\<close>

text \<open>
  The actions of a run, in the order they happen: the spawn of the shell on a
  command line, the evaluation of the one \<open>await\<close> of the loop (the call of
  \<open>proc.stdout.readline()\<close>, in which the coroutine may be suspended not at all,
  once or several times), and a call of the consumer (\<open>print\<close>) with the value it
  is given.
\<close>

datatype action = Spawn string | Await | Deliver bytes

text \<open>
  How a run stands when it is looked at: it has returned, it has ended by an
  exception that nothing caught, it is suspended in an \<open>await\<close> that no event will
  ever resume, or it is still going round its loop.
\<close>

datatype outcome = Returned | Raised exn | Suspended | Looping

text \<open>
  The \<open>while True\<close> loop, looked at after at most \<open>n\<close> turns. A turn awaits one line
  and hands it to \<open>print\<close>; an exception of \<open>readline\<close> or of \<open>print\<close> leaves the
  loop and \<open>run\<close>, as no handler stands in its way. A run is not cancelled from
  outside.
\<close>

fun loop ::
  "nat \<Rightarrow> stdout \<Rightarrow> reader \<Rightarrow> event list \<Rightarrow> action list \<Rightarrow> outcome \<times> action list"
where
  "loop 0 out r evs tr = (Looping, tr)"
| "loop (Suc n) out r evs tr =
     (case readline r evs of
        Got output_str r' evs' \<Rightarrow>
          (case print out output_str of
             Inl e \<Rightarrow> (Raised e, tr @ [Await, Deliver output_str])
           | Inr out' \<Rightarrow> loop n out' r' evs' (tr @ [Await, Deliver output_str]))
      | Raises e \<Rightarrow> (Raised e, tr @ [Await])
      | Waits \<Rightarrow> (Suspended, tr @ [Await]))"


text \<open>
  The operating system, as far as the program meets it: whether \<open>/bin/sh\<close> can be
  started at all (\<open>sh_error\<close> is the errno when it cannot); what the shell feeds
  into its standard output for a command line that it deals with by its own
  means, such as a builtin, a compound command or a syntax error (\<open>sh_builtin\<close>,
  \<open>None\<close> for a command line that is one external command with its arguments);
  for the name of an executable, what the program of that name feeds into its
  standard output when it is run on a command line (\<open>None\<close> when there is no such
  program); and the standard output of the program itself.
\<close>

record os =
  sh_error :: "nat option"
  sh_builtin :: "string \<Rightarrow> event list option"
  programs :: "string \<Rightarrow> (string \<Rightarrow> event list) option"
  stdout_of :: stdout

text \<open>
  The command line of \<open>run\<close> is one external command with its arguments. For such
  a command line the first word, after any leading blanks, names the executable.
  When the shell does not find it, it complains on its standard error, which is
  not captured, and exits: the pipe is closed and nothing was written to it.
\<close>

definition blank :: "char \<Rightarrow> bool" where
  "blank c = (c = CHR 0x20 \<or> c = CHR 0x09)"

definition command_name :: "string \<Rightarrow> string" where
  "command_name cmd = takeWhile (\<lambda>c. \<not> blank c) (dropWhile blank cmd)"

definition sh_c :: "os \<Rightarrow> string \<Rightarrow> event list" where
  "sh_c w cmd =
     (case sh_builtin w cmd of
        Some evs \<Rightarrow> evs
      | None \<Rightarrow>
          (case programs w (command_name cmd) of
             None \<Rightarrow> [Feed_eof]
           | Some child \<Rightarrow> child cmd))"

text \<open>
  \<open>asyncio.create_subprocess_shell(cmd, stdout=PIPE)\<close> starts \<open>/bin/sh -c cmd\<close>. It
  raises when the shell cannot be started, and only then: what becomes of the
  command inside the shell is not its business. A command line is a string
  without a NUL byte, as the one of \<open>run\<close> is; the library refuses any other before
  it starts anything.
\<close>

definition create_subprocess_shell :: "os \<Rightarrow> string \<Rightarrow> exn + reader \<times> event list" where
  "create_subprocess_shell w cmd =
     (case sh_error w of
        Some errno \<Rightarrow> Inl (OSError errno)
      | None \<Rightarrow> Inr (new_reader, sh_c w cmd))"

definition command :: string where
  "command = ''python nerd-dictation begin --continuous --numbers-as-digits''"

definition run :: "nat \<Rightarrow> os \<Rightarrow> outcome \<times> action list" where
  "run n w =
     (case create_subprocess_shell w command of
        Inl e \<Rightarrow> (Raised e, [Spawn command])
      | Inr (r, evs) \<Rightarrow> loop n (stdout_of w) r evs [Spawn command])"

text \<open>\<open>main\<close> is \<open>asyncio.run(run())\<close>: the outcome of \<open>run\<close> is its own.\<close>

definition main :: "nat \<Rightarrow> os \<Rightarrow> outcome \<times> action list" where
  "main n w = run n w"

subsection \<open>Reading a run\<close>

text \<open>
  The child closes its output in good order when \<open>feed_eof\<close> comes after writes
  only; a read of the stream fails with \<open>e\<close> when \<open>set_exception e\<close> comes after
  writes only.
\<close>

fun closes :: "event list \<Rightarrow> bool" where
  "closes [] = False"
| "closes (Feed_data d # evs) = closes evs"
| "closes (Feed_eof # evs) = True"
| "closes (Set_exception e # evs) = False"

fun breaks_with :: "exn \<Rightarrow> event list \<Rightarrow> bool" where
  "breaks_with e [] = False"
| "breaks_with e (Feed_data d # evs) = breaks_with e evs"
| "breaks_with e (Feed_eof # evs) = False"
| "breaks_with e (Set_exception e' # evs) = (e' = e)"

text \<open>
  A stream is broken for the reader when the transport has stored the exception
  already, whatever the buffer still holds, or when the pipe is open and a read
  of it will fail before it is closed.
\<close>

definition stream_breaks :: "exn \<Rightarrow> reader \<Rightarrow> event list \<Rightarrow> bool" where
  "stream_breaks e r evs =
     (case exception r of
        Some e' \<Rightarrow> e' = e
      | None \<Rightarrow> \<not> eof r \<and> breaks_with e evs)"

text \<open>
  The bytes that the child still writes before its pipe ends or fails, and the
  bytes that the reader has not handed out yet: those in its buffer and, while
  the pipe is open, those still to be written.
\<close>

fun written :: "event list \<Rightarrow> bytes" where
  "written [] = []"
| "written (Feed_data d # evs) = d @ written evs"
| "written (Feed_eof # evs) = []"
| "written (Set_exception e # evs) = []"

definition unread :: "reader \<Rightarrow> event list \<Rightarrow> bytes" where
  "unread r evs = buffer r @ (if eof r then [] else written evs)"

definition lines_left :: "reader \<Rightarrow> event list \<Rightarrow> nat" where
  "lines_left r evs = length (filter (\<lambda>c. c = newline) (unread r evs))"

text \<open>
  The lines of a byte string, each with its newline, and the rest after the last
  newline when there is one (\<open>bytes.splitlines(keepends=True)\<close>, for the newline
  alone): \<open>lines_acc cur b\<close> has read \<open>cur\<close> of the line it is in.
\<close>

fun lines_acc :: "bytes \<Rightarrow> bytes \<Rightarrow> bytes list" where
  "lines_acc cur [] = (if cur = [] then [] else [cur])"
| "lines_acc cur (c # cs) =
     (if c = newline then (cur @ [c]) # lines_acc [] cs else lines_acc (cur @ [c]) cs)"

definition lines_of :: "bytes \<Rightarrow> bytes list" where
  "lines_of b = lines_acc [] b"

text \<open>
  What \<open>n\<close> reads of a stream \<open>u\<close> that comes to its end should return: the lines
  of \<open>u\<close>, and the empty bytes from then on.
\<close>

definition expected :: "nat \<Rightarrow> bytes \<Rightarrow> bytes list" where
  "expected n u = take n (lines_of u @ replicate n [])"

text \<open>
  No line of a byte string is longer than the limit, its newline not counted;
  \<open>k\<close> bytes of the first line have been seen before.
\<close>

fun short_lines :: "nat \<Rightarrow> bytes \<Rightarrow> bool" where
  "short_lines k [] = (k \<le> limit)"
| "short_lines k (c # cs) =
     (if c = newline then k \<le> limit \<and> short_lines 0 cs else short_lines (Suc k) cs)"

text \<open>
  Of a trace: how often the \<open>await\<close> was evaluated, the values the consumer was
  called with, in order, and whether the trace is made of whole turns (one
  await, then one delivery), the last turn possibly cut after its await.
\<close>

fun awaits :: "action list \<Rightarrow> nat" where
  "awaits [] = 0"
| "awaits (Await # tr) = Suc (awaits tr)"
| "awaits (a # tr) = awaits tr"

fun deliveries :: "action list \<Rightarrow> bytes list" where
  "deliveries [] = []"
| "deliveries (Deliver b # tr) = b # deliveries tr"
| "deliveries (a # tr) = deliveries tr"


text \<open>
  Three systems to run on, each with a standard output that takes everything
  and a shell that takes every command line for an external command: one where
  the shell starts and \<open>python\<close> is a given child, one where the shell starts and
  finds no program of any name, and one where the shell itself is missing
  (errno 2, \<open>ENOENT\<close>).
\<close>

definition os_with :: "(string \<Rightarrow> event list) \<Rightarrow> os" where
  "os_with child =
     \<lparr>sh_error = None,
      sh_builtin = (\<lambda>cmd. None),
      programs = (\<lambda>name. if name = ''python'' then Some child else None),
      stdout_of = None\<rparr>"

definition os_without_python :: os where
  "os_without_python =
     \<lparr>sh_error = None, sh_builtin = (\<lambda>cmd. None), programs = (\<lambda>name. None),
      stdout_of = None\<rparr>"

definition os_without_shell :: os where
  "os_without_shell =
     \<lparr>sh_error = Some 2, sh_builtin = (\<lambda>cmd. None), programs = (\<lambda>name. None),
      stdout_of = None\<rparr>"

section \<open>Lemmas\<close>

subsection \<open>The trace only grows\<close>


lemma awaits_append: "awaits (xs @ ys) = awaits xs + awaits ys"
  by (induction xs rule: awaits.induct) simp_all

lemma deliveries_append: "deliveries (xs @ ys) = deliveries xs @ deliveries ys"
  by (induction xs rule: deliveries.induct) simp_all

lemma loop_never_returns: "fst (loop n out r evs tr) \<noteq> Returned"
  by (induction n arbitrary: out r evs tr) (simp_all split: read_result.splits sum.splits)

lemma run_never_returns: "fst (run n w) \<noteq> Returned"
  using loop_never_returns
  by (simp add: run_def create_subprocess_shell_def split: option.splits)



subsection \<open>Lines\<close>

lemma split_line_None: "(split_line b = None) = (newline \<notin> set b)"
  by (induction b) (auto split: option.splits)

lemma split_line_Some:
  "newline \<notin> set l \<Longrightarrow> split_line (l @ newline # rest) = Some (l @ [newline], rest)"
  by (induction l) auto

lemma split_line_parts:
  "split_line b = Some (l, rest) \<Longrightarrow>
   \<exists>l0. l = l0 @ [newline] \<and> newline \<notin> set l0 \<and> b = l0 @ newline # rest"
proof (induction b arbitrary: l rest)
  case Nil
  then show ?case by simp
next
  case (Cons c cs)
  show ?case
  proof (cases "c = newline")
    case True
    then have "l = [] @ [newline] \<and> newline \<notin> set [] \<and> c # cs = [] @ newline # rest"
      using Cons.prems by simp
    then show ?thesis by blast
  next
    case False
    then obtain l1 where s: "split_line cs = Some (l1, rest)" and l: "l = c # l1"
      using Cons.prems by (auto split: option.splits)
    from Cons.IH[OF s] obtain l0 where
      "l1 = l0 @ [newline]" "newline \<notin> set l0" "cs = l0 @ newline # rest" by blast
    then have "l = (c # l0) @ [newline] \<and> newline \<notin> set (c # l0) \<and>
        c # cs = (c # l0) @ newline # rest"
      using l False by simp
    then show ?thesis by blast
  qed
qed

lemma lines_acc_no_newline:
  "newline \<notin> set b \<Longrightarrow> lines_acc cur b = (if cur @ b = [] then [] else [cur @ b])"
  by (induction b arbitrary: cur) auto

lemma lines_acc_line:
  "newline \<notin> set l \<Longrightarrow> lines_acc cur (l @ newline # rest) = (cur @ l @ [newline]) # lines_acc [] rest"
  by (induction l arbitrary: cur) auto

lemma lines_of_line:
  "newline \<notin> set l \<Longrightarrow> lines_of ((l @ [newline]) @ rest) = (l @ [newline]) # lines_of rest"
  using lines_acc_line[of l "[]" rest] by (simp add: lines_of_def)

lemma lines_of_no_newline:
  "newline \<notin> set b \<Longrightarrow> lines_of b = (if b = [] then [] else [b])"
  using lines_acc_no_newline[of b "[]"] by (simp add: lines_of_def)



lemma take_pad: "n \<le> m \<Longrightarrow> take n (xs @ replicate m a) = take n (xs @ replicate n a)"
  by (auto simp add: min_def)

lemma expected_line:
  assumes "newline \<notin> set l"
  shows "expected (Suc n) ((l @ [newline]) @ rest) = (l @ [newline]) # expected n rest"
proof -
  have "take n (lines_of rest @ replicate (Suc n) []) = take n (lines_of rest @ replicate n [])"
    by (rule take_pad) simp
  then show ?thesis using lines_of_line[OF assms, of rest] by (simp add: expected_def)
qed

lemma expected_end:
  assumes "newline \<notin> set b"
  shows "expected (Suc n) b = b # expected n []"
proof (cases "b = []")
  case True
  then show ?thesis by (simp add: expected_def lines_of_def)
next
  case False
  have "take n (replicate (Suc n) ([]::bytes)) = replicate n []"
    using take_pad[of n "Suc n" "[]" "[]::bytes"] by simp
  then show ?thesis using False lines_of_no_newline[OF assms]
    by (simp add: expected_def lines_of_def)
qed


lemma expected_empty: "expected n [] = replicate n []"
  by (simp add: expected_def lines_of_def)

subsection \<open>Short lines\<close>

lemma short_lines_bound: "short_lines k b \<Longrightarrow> k \<le> limit"
proof (induction b arbitrary: k)
  case Nil
  then show ?case by simp
next
  case (Cons c cs)
  show ?case
  proof (cases "c = newline")
    case True
    then show ?thesis using Cons.prems by simp
  next
    case False
    then have "short_lines (Suc k) cs" using Cons.prems by simp
    then have "Suc k \<le> limit" by (rule Cons.IH)
    then show ?thesis by simp
  qed
qed

lemma short_lines_run:
  "newline \<notin> set xs \<Longrightarrow> short_lines k (xs @ ys) = short_lines (k + length xs) ys"
  by (induction xs arbitrary: k) auto

lemma short_lines_line:
  assumes "newline \<notin> set l" and "short_lines 0 (l @ newline # rest)"
  shows "length l \<le> limit \<and> short_lines 0 rest"
  using assms short_lines_run[of l 0 "newline # rest"] by simp

lemma short_lines_no_newline:
  assumes "newline \<notin> set b" and "short_lines 0 (b @ ys)"
  shows "length b \<le> limit"
  using assms short_lines_run[of b 0 ys] short_lines_bound[of "length b" ys] by simp

subsection \<open>One call of readline\<close>

lemma wait_split:
  "split_line (buffer r) = Some (l, rest) \<Longrightarrow>
   wait_for_line r evs =
     (if Suc limit < length l then Raises ValueError else Got l (r\<lparr>buffer := rest\<rparr>) evs)"
  by (cases evs) simp_all

lemma wait_long:
  "split_line (buffer r) = None \<Longrightarrow> limit < length (buffer r) \<Longrightarrow>
   wait_for_line r evs = Raises ValueError"
  by (cases evs) simp_all

lemma wait_eof:
  "split_line (buffer r) = None \<Longrightarrow> \<not> limit < length (buffer r) \<Longrightarrow> eof r \<Longrightarrow>
   wait_for_line r evs = Got (buffer r) (r\<lparr>buffer := []\<rparr>) evs"
  by (cases evs) simp_all

lemma wait_feed:
  "split_line (buffer r) = None \<Longrightarrow> \<not> limit < length (buffer r) \<Longrightarrow> \<not> eof r \<Longrightarrow>
   wait_for_line r (Feed_data d # evs) = wait_for_line (feed (Feed_data d) r) evs \<and>
   wait_for_line r (Feed_eof # evs) = wait_for_line (feed Feed_eof r) evs \<and>
   wait_for_line r (Set_exception e # evs) = Raises e \<and>
   wait_for_line r [] = Waits"
  by simp

lemma unread_feed:
  "\<not> eof r \<Longrightarrow> unread (feed (Feed_data d) r) evs = unread r (Feed_data d # evs)"
  "\<not> eof r \<Longrightarrow> unread (feed Feed_eof r) evs = unread r (Feed_eof # evs)"
  by (simp_all add: unread_def)

lemma unread_split:
  "split_line (buffer r) = Some (l, rest) \<Longrightarrow>
   \<exists>l0. l = l0 @ [newline] \<and> newline \<notin> set l0 \<and>
     unread r evs = (l0 @ [newline]) @ unread (r\<lparr>buffer := rest\<rparr>) evs"
proof -
  assume "split_line (buffer r) = Some (l, rest)"
  from split_line_parts[OF this] obtain l0 where
    l: "l = l0 @ [newline]" "newline \<notin> set l0" "buffer r = l0 @ newline # rest" by blast
  then have "unread r evs = (l0 @ [newline]) @ unread (r\<lparr>buffer := rest\<rparr>) evs"
    by (simp add: unread_def)
  then show ?thesis using l by blast
qed

lemma got_expected:
  "wait_for_line r evs = Got b r' evs' \<Longrightarrow>
   exception r' = exception r \<and>
   expected (Suc n) (unread r evs) = b # expected n (unread r' evs') \<and>
   length evs' \<le> length evs"
proof (induction evs arbitrary: r)
  case Nil
  show ?case
  proof (cases "split_line (buffer r)")
    case (Some p)
    obtain l rest where p: "p = (l, rest)" by (cases p)
    from unread_split[of r l rest "[]"] Some p obtain l0 where
      l: "l = l0 @ [newline]" "newline \<notin> set l0"
        "unread r [] = (l0 @ [newline]) @ unread (r\<lparr>buffer := rest\<rparr>) []" by auto
    have g: "b = l \<and> r' = r\<lparr>buffer := rest\<rparr> \<and> evs' = []"
      using Nil.prems Some p by (simp split: if_splits)
    show ?thesis using g l expected_line[OF l(2), of n "unread (r\<lparr>buffer := rest\<rparr>) []"]
      by simp
  next
    case None
    then have nl: "newline \<notin> set (buffer r)" by (simp add: split_line_None)
    have g: "eof r \<and> b = buffer r \<and> r' = r\<lparr>buffer := []\<rparr> \<and> evs' = []"
      using Nil.prems None by (simp split: if_splits)
    show ?thesis using g expected_end[OF nl, of n] by (simp add: unread_def)
  qed
next
  case (Cons ev evs)
  show ?case
  proof (cases "split_line (buffer r)")
    case (Some p)
    obtain l rest where p: "p = (l, rest)" by (cases p)
    from unread_split[of r l rest "ev # evs"] Some p obtain l0 where
      l: "l = l0 @ [newline]" "newline \<notin> set l0"
        "unread r (ev # evs) = (l0 @ [newline]) @ unread (r\<lparr>buffer := rest\<rparr>) (ev # evs)"
      by auto
    have g: "b = l \<and> r' = r\<lparr>buffer := rest\<rparr> \<and> evs' = ev # evs"
      using Cons.prems Some p by (simp split: if_splits)
    show ?thesis
      using g l expected_line[OF l(2), of n "unread (r\<lparr>buffer := rest\<rparr>) (ev # evs)"]
      by simp
  next
    case None
    then have nl: "newline \<notin> set (buffer r)" by (simp add: split_line_None)
    have short: "\<not> limit < length (buffer r)"
      using Cons.prems None by (auto split: if_splits)
    show ?thesis
    proof (cases "eof r")
      case True
      have g: "b = buffer r \<and> r' = r\<lparr>buffer := []\<rparr> \<and> evs' = ev # evs"
        using Cons.prems None short True by simp
      show ?thesis using g True expected_end[OF nl, of n] by (simp add: unread_def)
    next
      case False
      show ?thesis
      proof (cases ev)
        case (Feed_data d)
        have "wait_for_line (feed ev r) evs = Got b r' evs'"
          using Cons.prems None short False Feed_data by simp
        from Cons.IH[OF this] show ?thesis
          using Feed_data unread_feed(1)[OF False, of d evs] by simp
      next
        case Feed_eof
        have "wait_for_line (feed ev r) evs = Got b r' evs'"
          using Cons.prems None short False Feed_eof by simp
        from Cons.IH[OF this] show ?thesis
          using Feed_eof unread_feed(2)[OF False, of evs] by simp
      next
        case (Set_exception e)
        then show ?thesis using Cons.prems None short False by simp
      qed
    qed
  qed
qed


subsection \<open>What is delivered\<close>


subsection \<open>A stream that ends in good order\<close>

lemma wait_clean:
  "eof r \<or> closes evs \<Longrightarrow> short_lines 0 (unread r evs) \<Longrightarrow>
   \<exists>b r' evs'. wait_for_line r evs = Got b r' evs' \<and> (eof r' \<or> closes evs') \<and>
     short_lines 0 (unread r' evs')"
proof (induction evs arbitrary: r)
  case Nil
  then have e: "eof r" by simp
  show ?case
  proof (cases "split_line (buffer r)")
    case (Some p)
    obtain l rest where p: "p = (l, rest)" by (cases p)
    from unread_split[of r l rest "[]"] Some p obtain l0 where
      l: "l = l0 @ [newline]" "newline \<notin> set l0"
        "unread r [] = (l0 @ [newline]) @ unread (r\<lparr>buffer := rest\<rparr>) []" by auto
    have "short_lines 0 (l0 @ newline # unread (r\<lparr>buffer := rest\<rparr>) [])"
      using Nil.prems(2) l(3) by simp
    from short_lines_line[OF l(2) this]
    have s: "length l0 \<le> limit" "short_lines 0 (unread (r\<lparr>buffer := rest\<rparr>) [])" by simp_all
    have "wait_for_line r [] = Got l (r\<lparr>buffer := rest\<rparr>) []"
      using wait_split[of r l rest "[]"] Some p l(1) s(1) by simp
    then show ?thesis using e s(2) by simp
  next
    case None
    then have nl: "newline \<notin> set (buffer r)" by (simp add: split_line_None)
    have "short_lines 0 (buffer r @ [])" using Nil.prems(2) e by (simp add: unread_def)
    from short_lines_no_newline[OF nl this] have "\<not> limit < length (buffer r)" by simp
    then have "wait_for_line r [] = Got (buffer r) (r\<lparr>buffer := []\<rparr>) []"
      using wait_eof None e by simp
    then show ?thesis using e by (simp add: unread_def)
  qed
next
  case (Cons ev evs)
  show ?case
  proof (cases "split_line (buffer r)")
    case (Some p)
    obtain l rest where p: "p = (l, rest)" by (cases p)
    from unread_split[of r l rest "ev # evs"] Some p obtain l0 where
      l: "l = l0 @ [newline]" "newline \<notin> set l0"
        "unread r (ev # evs) = (l0 @ [newline]) @ unread (r\<lparr>buffer := rest\<rparr>) (ev # evs)"
      by auto
    have "short_lines 0 (l0 @ newline # unread (r\<lparr>buffer := rest\<rparr>) (ev # evs))"
      using Cons.prems(2) l(3) by simp
    from short_lines_line[OF l(2) this]
    have s: "length l0 \<le> limit" "short_lines 0 (unread (r\<lparr>buffer := rest\<rparr>) (ev # evs))"
      by simp_all
    have "wait_for_line r (ev # evs) = Got l (r\<lparr>buffer := rest\<rparr>) (ev # evs)"
      using wait_split[of r l rest "ev # evs"] Some p l(1) s(1) by simp
    then show ?thesis using Cons.prems(1) s(2) by simp
  next
    case None
    then have nl: "newline \<notin> set (buffer r)" by (simp add: split_line_None)
    have "short_lines 0 (buffer r @ (if eof r then [] else written (ev # evs)))"
      using Cons.prems(2) by (simp add: unread_def)
    from short_lines_no_newline[OF nl this] have short: "\<not> limit < length (buffer r)" by simp
    show ?thesis
    proof (cases "eof r")
      case True
      have "wait_for_line r (ev # evs) = Got (buffer r) (r\<lparr>buffer := []\<rparr>) (ev # evs)"
        by (rule wait_eof[OF None short True])
      then show ?thesis using True by (simp add: unread_def)
    next
      case False
      then have c: "closes (ev # evs)" using Cons.prems(1) by simp
      show ?thesis
      proof (cases ev)
        case (Feed_data d)
        have a: "eof (feed ev r) \<or> closes evs" using c Feed_data by simp
        have b: "short_lines 0 (unread (feed ev r) evs)"
          using Cons.prems(2) Feed_data unread_feed(1)[OF False, of d evs] by simp
        from Cons.IH[OF a b] show ?thesis using None short False Feed_data by simp
      next
        case Feed_eof
        have a: "eof (feed ev r) \<or> closes evs" using Feed_eof by simp
        have b: "short_lines 0 (unread (feed ev r) evs)"
          using Cons.prems(2) Feed_eof unread_feed(2)[OF False, of evs] by simp
        from Cons.IH[OF a b] show ?thesis using None short False Feed_eof by simp
      next
        case (Set_exception e)
        then show ?thesis using c by simp
      qed
    qed
  qed
qed

lemma loop_clean:
  "exception r = None \<Longrightarrow> eof r \<or> closes evs \<Longrightarrow> short_lines 0 (unread r evs) \<Longrightarrow>
   fst (loop n None r evs tr) = Looping \<and>
   awaits (snd (loop n None r evs tr)) = awaits tr + n \<and>
   length (deliveries (snd (loop n None r evs tr))) = length (deliveries tr) + n"
proof (induction n arbitrary: r evs tr)
  case 0
  show ?case by simp
next
  case (Suc n)
  from wait_clean[OF Suc.prems(2,3)] obtain b r' evs' where
    g: "wait_for_line r evs = Got b r' evs'" and c: "eof r' \<or> closes evs'"
    and s: "short_lines 0 (unread r' evs')"
    by blast
  have e: "exception r' = None" using got_expected[OF g, of 0] Suc.prems(1) by simp
  show ?case using Suc.IH[OF e c s, of "tr @ [Await, Deliver b]"] g Suc.prems(1)
    by (simp add: readline_def awaits_append deliveries_append)
qed


subsection \<open>After the end of the stream\<close>

lemma readline_exhausted:
  assumes "eof r" and "buffer r = []" and "exception r = None"
  shows "readline r evs = Got [] r evs"
proof -
  have "r\<lparr>buffer := []\<rparr> = r" using assms(2) by simp
  then show ?thesis using assms by (cases evs) (simp_all add: readline_def)
qed

lemma loop_exhausted:
  assumes "eof r" and "buffer r = []" and "exception r = None"
  shows "loop n None r evs tr = (Looping, tr @ concat (replicate n [Await, Deliver []]))"
  using assms by (induction n arbitrary: tr) (simp_all add: readline_exhausted)

lemma loop_exhausted_stdout_gone:
  assumes "eof r" and "buffer r = []" and "exception r = None"
  shows "k < n \<Longrightarrow> loop n (Some (k, errno)) r evs tr =
    (Raised (OSError errno), tr @ concat (replicate (Suc k) [Await, Deliver []]))"
proof (induction k arbitrary: n tr)
  case 0
  then obtain n' where "n = Suc n'" by (cases n) simp_all
  then show ?case using assms by (simp add: readline_exhausted)
next
  case (Suc k)
  then obtain n' where n: "n = Suc n'" by (cases n) simp_all
  then have "k < n'" using Suc.prems by simp
  from Suc.IH[OF this, of "tr @ [Await, Deliver []]"] show ?case
    using n assms by (simp add: readline_exhausted)
qed

lemma loop_hangup:
  "loop n None new_reader (Feed_eof # evs) tr =
     (Looping, tr @ concat (replicate n [Await, Deliver []]))"
proof (cases n)
  case 0
  then show ?thesis by simp
next
  case (Suc m)
  have "loop m None \<lparr>buffer = [], eof = True, exception = None\<rparr> evs (tr @ [Await, Deliver []]) =
      (Looping, (tr @ [Await, Deliver []]) @ concat (replicate m [Await, Deliver []]))"
    by (rule loop_exhausted) simp_all
  then show ?thesis using Suc by (cases evs) (simp_all add: readline_def new_reader_def)
qed

subsection \<open>A read that fails\<close>

lemma lines_left_split:
  assumes "split_line (buffer r) = Some (l, rest)"
  shows "lines_left (r\<lparr>buffer := rest\<rparr>) evs < lines_left r evs"
proof -
  from unread_split[OF assms, of evs] obtain l0 where
    "unread r evs = (l0 @ [newline]) @ unread (r\<lparr>buffer := rest\<rparr>) evs" by blast
  then show ?thesis by (simp add: lines_left_def)
qed

lemma wait_break:
  "\<not> eof r \<Longrightarrow> breaks_with e evs \<Longrightarrow> short_lines 0 (unread r evs) \<Longrightarrow>
   wait_for_line r evs = Raises e \<or>
   (\<exists>b r' evs'. wait_for_line r evs = Got b r' evs' \<and> \<not> eof r' \<and> breaks_with e evs' \<and>
      short_lines 0 (unread r' evs') \<and> lines_left r' evs' < lines_left r evs)"
proof (induction evs arbitrary: r)
  case Nil
  then show ?case by simp
next
  case (Cons ev evs)
  show ?case
  proof (cases "split_line (buffer r)")
    case (Some p)
    obtain l rest where p: "p = (l, rest)" by (cases p)
    from unread_split[of r l rest "ev # evs"] Some p obtain l0 where
      l: "l = l0 @ [newline]" "newline \<notin> set l0"
        "unread r (ev # evs) = (l0 @ [newline]) @ unread (r\<lparr>buffer := rest\<rparr>) (ev # evs)"
      by auto
    have "short_lines 0 (l0 @ newline # unread (r\<lparr>buffer := rest\<rparr>) (ev # evs))"
      using Cons.prems(3) l(3) by simp
    from short_lines_line[OF l(2) this]
    have s: "length l0 \<le> limit" "short_lines 0 (unread (r\<lparr>buffer := rest\<rparr>) (ev # evs))"
      by simp_all
    have "wait_for_line r (ev # evs) = Got l (r\<lparr>buffer := rest\<rparr>) (ev # evs)"
      using wait_split[of r l rest "ev # evs"] Some p l(1) s(1) by simp
    then show ?thesis
      using Cons.prems(1,2) s(2) lines_left_split[of r l rest "ev # evs"] Some p by simp
  next
    case None
    then have nl: "newline \<notin> set (buffer r)" by (simp add: split_line_None)
    have "short_lines 0 (buffer r @ written (ev # evs))"
      using Cons.prems(1,3) by (simp add: unread_def)
    from short_lines_no_newline[OF nl this] have short: "\<not> limit < length (buffer r)" by simp
    have ne: "\<not> eof r" by (rule Cons.prems(1))
    show ?thesis
    proof (cases ev)
      case (Feed_data d)
      have u: "unread (feed ev r) evs = unread r (ev # evs)"
        using Feed_data unread_feed(1)[OF ne, of d evs] by simp
      have a: "\<not> eof (feed ev r)" using ne Feed_data by simp
      have b: "breaks_with e evs" using Cons.prems(2) Feed_data by simp
      have c: "short_lines 0 (unread (feed ev r) evs)" using Cons.prems(3) u by simp
      have m: "lines_left (feed ev r) evs = lines_left r (ev # evs)"
        using u by (simp add: lines_left_def)
      from Cons.IH[OF a b c] show ?thesis using None short ne Feed_data m by simp
    next
      case Feed_eof
      then show ?thesis using Cons.prems(2) by simp
    next
      case (Set_exception e')
      then show ?thesis using Cons.prems(2) None short ne by simp
    qed
  qed
qed

lemma loop_break_waiting:
  "exception r = None \<Longrightarrow> \<not> eof r \<Longrightarrow> breaks_with e evs \<Longrightarrow> short_lines 0 (unread r evs) \<Longrightarrow>
   \<exists>tr'. \<forall>n. lines_left r evs < n \<longrightarrow> loop n None r evs tr = (Raised e, tr @ tr' @ [Await])"
proof (induction "lines_left r evs" arbitrary: r evs tr rule: less_induct)
  case less
  from wait_break[OF less.prems(2,3,4)]
  consider (raises) "wait_for_line r evs = Raises e"
    | (got) b r' evs' where "wait_for_line r evs = Got b r' evs'"
        "\<not> eof r'" "breaks_with e evs'" "short_lines 0 (unread r' evs')"
        "lines_left r' evs' < lines_left r evs"
    by blast
  then show ?case
  proof cases
    case raises
    have "\<forall>n. lines_left r evs < n \<longrightarrow> loop n None r evs tr = (Raised e, tr @ [] @ [Await])"
    proof (intro allI impI)
      fix n assume "lines_left r evs < n"
      then obtain n' where "n = Suc n'" by (cases n) simp_all
      then show "loop n None r evs tr = (Raised e, tr @ [] @ [Await])"
        using raises less.prems(1) by (simp add: readline_def)
    qed
    then show ?thesis by blast
  next
    case got
    have x: "exception r' = None" using got_expected[OF got(1), of 0] less.prems(1) by simp
    from less.hyps[OF got(5) x got(2) got(3) got(4), of "tr @ [Await, Deliver b]"]
    obtain tr'' where t: "\<forall>n. lines_left r' evs' < n \<longrightarrow>
        loop n None r' evs' (tr @ [Await, Deliver b]) =
          (Raised e, (tr @ [Await, Deliver b]) @ tr'' @ [Await])"
      by blast
    have "\<forall>n. lines_left r evs < n \<longrightarrow>
        loop n None r evs tr = (Raised e, tr @ ([Await, Deliver b] @ tr'') @ [Await])"
    proof (intro allI impI)
      fix n assume a: "lines_left r evs < n"
      then obtain n' where n: "n = Suc n'" by (cases n) simp_all
      then have "lines_left r' evs' < n'" using a got(5) by simp
      then have "loop n' None r' evs' (tr @ [Await, Deliver b]) =
          (Raised e, (tr @ [Await, Deliver b]) @ tr'' @ [Await])"
        using t by blast
      then show "loop n None r evs tr = (Raised e, tr @ ([Await, Deliver b] @ tr'') @ [Await])"
        using n got(1) less.prems(1) by (simp add: readline_def)
    qed
    then show ?thesis by blast
  qed
qed

lemma loop_break_stored:
  "exception r = Some e \<Longrightarrow> loop (Suc n) out r evs tr = (Raised e, tr @ [Await])"
  by (simp add: readline_def)

subsection \<open>Suspensions\<close>

lemma waits_stop:
  "split_line (buffer r) \<noteq> None \<or> limit < length (buffer r) \<or> eof r \<Longrightarrow> waits_in r evs = 0"
  by (cases evs) (auto split: option.splits)

lemma waits_go:
  "split_line (buffer r) = None \<Longrightarrow> \<not> limit < length (buffer r) \<Longrightarrow> \<not> eof r \<Longrightarrow>
   0 < waits_in r evs"
proof (induction evs arbitrary: r)
  case Nil
  then show ?case by simp
next
  case (Cons ev evs)
  show ?case
  proof (cases ev)
    case (Feed_data d)
    show ?thesis
    proof (cases "d = []")
      case True
      have "0 < waits_in (feed ev r) evs"
        using Cons.IH[of "feed ev r"] Cons.prems Feed_data True by simp
      then show ?thesis using Cons.prems Feed_data True by simp
    next
      case False
      then show ?thesis using Cons.prems Feed_data by simp
    qed
  next
    case Feed_eof
    then show ?thesis using Cons.prems by simp
  next
    case (Set_exception e)
    then show ?thesis using Cons.prems by simp
  qed
qed

lemma waits_zero:
  "(waits_in r evs = 0) = (split_line (buffer r) \<noteq> None \<or> limit < length (buffer r) \<or> eof r)"
proof (cases "split_line (buffer r) \<noteq> None \<or> limit < length (buffer r) \<or> eof r")
  case True
  from waits_stop[OF True, of evs] True show ?thesis by blast
next
  case False
  then have "split_line (buffer r) = None" "\<not> limit < length (buffer r)" "\<not> eof r"
    by blast+
  from waits_go[OF this, of evs] False show ?thesis by auto
qed

lemma suspensions_zero:
  "(suspensions r evs = 0) =
   (exception r \<noteq> None \<or> split_line (buffer r) \<noteq> None \<or> limit < length (buffer r) \<or> eof r)"
  using waits_zero[of r evs] by (cases "exception r") (simp_all add: suspensions_def)







subsection \<open>The fixed command and the printed text\<close>

lemma command_name_command: "command_name command = ''python''"
  by (simp add: command_name_def command_def blank_def)

lemma run_os_with:
  "run n (os_with child) = loop n None new_reader (child command) [Spawn command]"
  by (simp add: run_def create_subprocess_shell_def sh_c_def os_with_def command_name_command)





subsection \<open>Unfolding a number of turns\<close>

lemma loop_numeral:
  "loop (numeral k) out r evs tr =
     (case readline r evs of
        Got b r' evs' \<Rightarrow>
          (case print out b of
             Inl e \<Rightarrow> (Raised e, tr @ [Await, Deliver b])
           | Inr out' \<Rightarrow> loop (pred_numeral k) out' r' evs' (tr @ [Await, Deliver b]))
      | Raises e \<Rightarrow> (Raised e, tr @ [Await])
      | Waits \<Rightarrow> (Suspended, tr @ [Await]))"
  by (simp add: numeral_eq_Suc)


section \<open>The claims\<close>

text \<open>
  The supervisor states of the specification are read off the outcome of \<open>run\<close>:
  \<open>Exited\<close> is \<open>Returned\<close>, \<open>Failed\<close> is \<open>Raised\<close>, and a run that is \<open>Suspended\<close> or
  \<open>Looping\<close> is still \<open>Running\<close>.
\<close>

subsection \<open>C1: lines, then a clean exit\<close>

text \<open>
  C1 says that for a child that writes the lines L1..Ln and exits cleanly the
  consumer is given exactly L1..Ln in order, then nothing more, and that the
  supervisor ends as \<open>Exited\<close>. The lines do arrive in order, but the loop never
  tests for the end of the stream: on the child of the specification's example,
  which writes \<open>hello\<close> and \<open>world 1 2 3\<close> and closes its output, the run looked at
  after \<open>n + 2\<close> turns has handed over the two lines and then \<open>n\<close> empty values, and
  it is still looping.
\<close>

theorem exit_after_lines_keeps_delivering:
  "run (Suc (Suc n))
      (os_with (\<lambda>cmd. [Feed_data (''hello'' @ [newline]),
                       Feed_data (''world 1 2 3'' @ [newline]), Feed_eof])) =
   (Looping,
    [Spawn command, Await, Deliver (''hello'' @ [newline]),
     Await, Deliver (''world 1 2 3'' @ [newline])] @ concat (replicate n [Await, Deliver []]))"
proof -
  let ?tr = "[Spawn command, Await, Deliver (''hello'' @ [newline]),
     Await, Deliver (''world 1 2 3'' @ [newline])]"
  have "loop n None \<lparr>buffer = [], eof = False, exception = None\<rparr> [Feed_eof] ?tr =
      (Looping, ?tr @ concat (replicate n [Await, Deliver []]))"
    using loop_hangup[of n "[]" ?tr] by (simp add: new_reader_def)
  then show ?thesis
    by (simp add: run_os_with readline_def new_reader_def newline_def limit_def)
qed

subsection \<open>C2: the end of the stream is detected\<close>

text \<open>
  C2 says that when the child closes its output the read yields an end-of-stream
  signal, the supervisor detects it and the loop ends cleanly instead of reading
  again in a hot loop. The signal is there, \<open>readline\<close> returns the empty bytes,
  but nothing looks at it: for a child that writes nothing and closes its output,
  the run looked at after any number \<open>n\<close> of turns has made \<open>n\<close> reads, has printed
  \<open>n\<close> empty values and is still looping.
\<close>

theorem closed_stream_is_not_detected:
  "run n (os_with (\<lambda>cmd. [Feed_eof])) =
   (Looping, Spawn command # concat (replicate n [Await, Deliver []]))"
  using loop_hangup[of n "[]" "[Spawn command]"] by (simp add: run_os_with)

subsection \<open>C3: the loop as it is never ends once the child has exited\<close>

text \<open>
  C3 says that, as the program is written, for every run in which the child
  exits the loop goes round again after every read, so that \<open>run\<close> never ends. It
  does end, by an exception, when the child has written a line longer than the
  limit of the reader: a child that writes a line of \<open>limit + 1\<close> bytes and its
  newline and then closes its output makes the first \<open>readline\<close> raise \<open>ValueError\<close>,
  and that leaves \<open>run\<close>.
\<close>

theorem long_line_ends_run:
  "sh_error (os_with (\<lambda>cmd. [Feed_data (replicate (Suc limit) (CHR ''a'') @ [newline]), Feed_eof])) = None \<and>
   closes (sh_c (os_with (\<lambda>cmd. [Feed_data (replicate (Suc limit) (CHR ''a'') @ [newline]), Feed_eof])) command) \<and>
   run 3 (os_with (\<lambda>cmd. [Feed_data (replicate (Suc limit) (CHR ''a'') @ [newline]), Feed_eof])) =
     (Raised ValueError, [Spawn command, Await])"
proof -
  let ?line = "replicate (Suc limit) (CHR ''a'') @ [newline]"
  have n: "newline \<notin> set (replicate (Suc limit) (CHR ''a''))" by (simp add: newline_def)
  have s: "split_line ?line = Some (?line, [])"
    using split_line_Some[OF n, of "[]"] by simp
  have "wait_for_line \<lparr>buffer = ?line, eof = False, exception = None\<rparr> [Feed_eof] =
      Raises ValueError"
    using wait_split[of "\<lparr>buffer = ?line, eof = False, exception = None\<rparr>" ?line "[]" "[Feed_eof]"] s
    by simp
  then have r: "readline new_reader [Feed_data ?line, Feed_eof] = Raises ValueError"
    by (simp add: readline_def new_reader_def)
  have a: "sh_error (os_with (\<lambda>cmd. [Feed_data ?line, Feed_eof])) = None"
    by (simp add: os_with_def)
  have b: "closes (sh_c (os_with (\<lambda>cmd. [Feed_data ?line, Feed_eof])) command)"
    by (simp add: os_with_def sh_c_def command_name_command)
  have c: "run 3 (os_with (\<lambda>cmd. [Feed_data ?line, Feed_eof])) =
      (Raised ValueError, [Spawn command, Await])"
    using r by (simp add: run_os_with loop_numeral)
  show ?thesis using a b c by simp
qed

text \<open>
  C3 as amended: whenever the shell starts, what it runs closes its output in
  good order, no line written is longer than the limit of the reader and
  \<open>print\<close> does not fail, the loop never tests for the end of the stream: the run
  is still looping after every number \<open>n\<close> of turns, and by then it has evaluated
  its await \<open>n\<close> times and called the consumer \<open>n\<close> times.
\<close>

theorem run_spins_after_clean_exit:
  assumes "sh_error w = None" and "closes (sh_c w command)"
    and "short_lines 0 (written (sh_c w command))" and "stdout_of w = None"
  shows "fst (run n w) = Looping \<and> awaits (snd (run n w)) = n \<and>
    length (deliveries (snd (run n w))) = n"
proof -
  have x: "exception new_reader = None" by (simp add: new_reader_def)
  have c: "eof new_reader \<or> closes (sh_c w command)" using assms(2) by simp
  have s: "short_lines 0 (unread new_reader (sh_c w command))"
    using assms(3) by (simp add: unread_def new_reader_def)
  show ?thesis
    using loop_clean[OF x c s, of n "[Spawn command]"] assms(1,4)
    by (simp add: run_def create_subprocess_shell_def)
qed

theorem run_spins_after_clean_exit_witness:
  "fst (run 7 (os_with (\<lambda>cmd. [Feed_data (''one'' @ [newline]), Feed_eof]))) = Looping \<and>
   awaits (snd (run 7 (os_with (\<lambda>cmd. [Feed_data (''one'' @ [newline]), Feed_eof])))) = 7 \<and>
   length (deliveries (snd (run 7 (os_with (\<lambda>cmd. [Feed_data (''one'' @ [newline]), Feed_eof]))))) = 7"
  using run_spins_after_clean_exit
    [of "os_with (\<lambda>cmd. [Feed_data (''one'' @ [newline]), Feed_eof])" 7]
  by (simp add: os_with_def sh_c_def command_name_command newline_def limit_def)

subsection \<open>C4: a command whose executable does not exist\<close>

text \<open>
  C4 says that a command whose executable does not exist makes the spawn fail
  with a launch error, and that the loop is then never entered. The command is
  given to a shell, and it is the shell that is spawned: on a system where the
  shell starts and no program has the name \<open>python\<close>, the spawn succeeds, the loop
  is entered and the consumer is called with empty values.
\<close>

theorem missing_executable_still_spawns:
  "programs os_without_python (command_name command) = None \<and>
   create_subprocess_shell os_without_python command = Inr (new_reader, [Feed_eof]) \<and>
   run 2 os_without_python =
     (Looping, [Spawn command, Await, Deliver [], Await, Deliver []])"
  by (simp add: run_def create_subprocess_shell_def sh_c_def readline_def new_reader_def
      os_without_python_def eval_nat_numeral)

text \<open>
  C4 as amended: the spawn fails exactly when the shell itself cannot be started,
  whether the executable named in the command exists or not; the \<open>OSError\<close> then
  leaves \<open>run\<close> at once, after the one attempt to spawn and before any await or
  delivery.
\<close>

theorem spawn_fails_only_without_shell:
  "((\<exists>e. create_subprocess_shell w cmd = Inl e) = (sh_error w \<noteq> None)) \<and>
   (sh_error w = Some errno \<longrightarrow>
      create_subprocess_shell w command = Inl (OSError errno) \<and>
      run n w = (Raised (OSError errno), [Spawn command]))"
  by (auto simp add: run_def create_subprocess_shell_def split: option.splits)

theorem spawn_fails_only_without_shell_witness:
  "create_subprocess_shell os_without_shell command = Inl (OSError 2) \<and>
   run 3 os_without_shell = (Raised (OSError 2), [Spawn command])"
  using spawn_fails_only_without_shell [of os_without_shell command 2 3]
  by (simp add: os_without_shell_def)

subsection \<open>C5: a child that stays silent and alive\<close>

text \<open>
  C5 says that for a child that never exits and writes nothing, \<open>run\<close> does not end
  by itself and does not poll: nothing is forwarded and the loop stays suspended
  at its one await. When the shell starts and what it runs feeds no event at all,
  the run looked at after any positive number of turns is suspended, and its
  trace is the spawn followed by a single await.
\<close>

theorem silent_child_suspends_run:
  assumes "sh_error w = None" and "sh_c w command = []"
  shows "run (Suc n) w = (Suspended, [Spawn command, Await])"
  using assms
  by (simp add: run_def create_subprocess_shell_def readline_def new_reader_def)

theorem silent_child_suspends_run_witness:
  "run 4 (os_with (\<lambda>cmd. [])) = (Suspended, [Spawn command, Await])"
  using silent_child_suspends_run [of "os_with (\<lambda>cmd. [])" 3]
  by (simp add: os_with_def sh_c_def command_name_command)

subsection \<open>C6: a stream that ends otherwise than by a clean exit\<close>

text \<open>
  C6 says that whenever the stream becomes unreadable for another reason than a
  clean exit, the error reaches the caller, the loop ends, and the supervisor
  ends as \<open>Failed\<close>. A child that is killed in the middle of a line is such a
  reason, but the reader is only told that the pipe has ended: for a child that
  writes one line and the two bytes \<open>tw\<close> and is then killed, the loop hands over
  the line, the two bytes and then empty values, raises nothing and is still
  looping.
\<close>

theorem killed_child_is_end_of_stream:
  "run 4 (os_with (\<lambda>cmd. [Feed_data (''one'' @ [newline]), Feed_data ''tw'', Feed_eof])) =
   (Looping,
    [Spawn command, Await, Deliver (''one'' @ [newline]), Await, Deliver ''tw'',
     Await, Deliver [], Await, Deliver []])"
  by (simp add: run_os_with loop_numeral readline_def new_reader_def newline_def limit_def)

text \<open>
  C6 as amended: when a read of the stream itself fails, so that the transport
  reports an exception \<open>e\<close> to the reader before the stream has ended, and when no
  line before that is longer than the limit and \<open>print\<close> does not fail, then from
  any state of a run, with any trace \<open>tr\<close> behind it, the result is one and the
  same for every number of turns beyond the lines still to come: the run has
  ended by raising \<open>e\<close>, its trace is \<open>tr\<close> with something added, and its last
  action is the await that raised. Nothing is said here of a child that dies and
  leaves the reader with the end of the stream.
\<close>

theorem failed_read_ends_run:
  assumes "stream_breaks e r evs" and "short_lines 0 (unread r evs)"
  shows "\<exists>tr'. \<forall>n. lines_left r evs < n \<longrightarrow> loop n None r evs tr = (Raised e, tr @ tr' @ [Await])"
proof (cases "exception r")
  case None
  then show ?thesis using assms loop_break_waiting[of r e evs tr]
    by (simp add: stream_breaks_def)
next
  case (Some e')
  then have s: "exception r = Some e" using assms(1) by (simp add: stream_breaks_def)
  have "\<forall>n. lines_left r evs < n \<longrightarrow> loop n None r evs tr = (Raised e, tr @ [] @ [Await])"
  proof (intro allI impI)
    fix n assume "lines_left r evs < n"
    then obtain n' where "n = Suc n'" by (cases n) simp_all
    then show "loop n None r evs tr = (Raised e, tr @ [] @ [Await])"
      using loop_break_stored[OF s] by simp
  qed
  then show ?thesis by blast
qed

theorem failed_read_ends_run_witness:
  "stream_breaks (OSError 5) new_reader
     [Feed_data (''one'' @ [newline]), Feed_data ''tw'', Set_exception (OSError 5)] \<and>
   (\<exists>tr'. loop 2 None new_reader
       [Feed_data (''one'' @ [newline]), Feed_data ''tw'', Set_exception (OSError 5)]
       [Spawn command] =
     (Raised (OSError 5), [Spawn command] @ tr' @ [Await]))"
proof -
  let ?evs = "[Feed_data (''one'' @ [newline]), Feed_data ''tw'', Set_exception (OSError 5)]"
  have b: "stream_breaks (OSError 5) new_reader ?evs"
    by (simp add: stream_breaks_def new_reader_def)
  have s: "short_lines 0 (unread new_reader ?evs)"
    by (simp add: unread_def new_reader_def newline_def limit_def)
  have l: "lines_left new_reader ?evs < 2"
    by (simp add: lines_left_def unread_def new_reader_def newline_def)
  from failed_read_ends_run [OF b s, of "[Spawn command]"] l show ?thesis using b by blast
qed

subsection \<open>C7: one await and one delivery in every turn\<close>




subsection \<open>C8: empty deliveries after the end of the stream\<close>

text \<open>
  C8 says that once the stream is exhausted every read returns the empty bytes
  at once and the loop forwards that value in every turn, so that the consumer is
  called without end. The calls end when \<open>print\<close> fails: with a standard output
  that takes one more write and then fails with errno 32, for a child that has
  closed its output, the consumer is called twice, the second call raises and
  \<open>run\<close> has ended.
\<close>

theorem stdout_gone_stops_deliveries:
  "run 5 \<lparr>sh_error = None, sh_builtin = (\<lambda>cmd. None),
          programs = (\<lambda>name. Some (\<lambda>cmd. [Feed_eof])), stdout_of = Some (1, 32)\<rparr> =
   (Raised (OSError 32), [Spawn command, Await, Deliver [], Await, Deliver []])"
  by (simp add: run_def create_subprocess_shell_def sh_c_def loop_numeral readline_def
      new_reader_def limit_def)

text \<open>
  C8 as amended: once the stream is exhausted (the pipe has ended, the buffer is
  empty, no exception is stored), every read returns the empty bytes without
  suspending and leaves everything as it was, and the loop forwards that value
  in every turn for as long as \<open>print\<close> succeeds: without end when \<open>print\<close> never
  fails, and until the call that fails, which ends \<open>run\<close> with its \<open>OSError\<close>,
  otherwise.
\<close>

theorem empty_reads_after_eof:
  assumes "eof r" and "buffer r = []" and "exception r = None"
  shows "readline r evs = Got [] r evs \<and>
    suspensions r evs = 0 \<and>
    loop n None r evs tr = (Looping, tr @ concat (replicate n [Await, Deliver []])) \<and>
    (k < n \<longrightarrow>
       loop n (Some (k, errno)) r evs tr =
         (Raised (OSError errno), tr @ concat (replicate (Suc k) [Await, Deliver []])))"
proof -
  have s: "suspensions r evs = 0" using assms(1) suspensions_zero[of r evs] by simp
  show ?thesis
    using readline_exhausted[OF assms] loop_exhausted[OF assms]
      loop_exhausted_stdout_gone[OF assms] s
    by simp
qed

theorem empty_reads_after_eof_witness:
  "readline \<lparr>buffer = [], eof = True, exception = None\<rparr> [] =
     Got [] \<lparr>buffer = [], eof = True, exception = None\<rparr> [] \<and>
   suspensions \<lparr>buffer = [], eof = True, exception = None\<rparr> [] = 0 \<and>
   loop 3 None \<lparr>buffer = [], eof = True, exception = None\<rparr> [] [] =
     (Looping, [Await, Deliver [], Await, Deliver [], Await, Deliver []]) \<and>
   loop 3 (Some (1, 32)) \<lparr>buffer = [], eof = True, exception = None\<rparr> [] [] =
     (Raised (OSError 32), [Await, Deliver [], Await, Deliver []])"
proof -
  have a: "eof \<lparr>buffer = [], eof = True, exception = None\<rparr>" by simp
  have b: "buffer \<lparr>buffer = [], eof = True, exception = None\<rparr> = []" by simp
  have c: "exception \<lparr>buffer = [], eof = True, exception = None\<rparr> = None" by simp
  have r: "replicate 3 [Await, Deliver []] = [[Await, Deliver []], [Await, Deliver []], [Await, Deliver []]]"
    by (simp add: numeral_eq_Suc)
  have k: "(1::nat) < 3" by simp
  from empty_reads_after_eof [OF a b c, of "[]" 3 "[]" 1 32] r k show ?thesis by simp
qed

subsection \<open>C9: what is forwarded and what is printed\<close>



subsection \<open>C10: the shell hides a missing executable\<close>




end
